theory Spec2Isabelle
  imports Main "HOL-Library.Log_Nat"
begin

section \<open>The language's strings and numbers\<close>

text \<open>
  The program (\<^verbatim>\<open>src/App.jsx\<close>) is JavaScript. Its strings are modelled as HOL strings, so
  the embedding covers ASCII text: \<^verbatim>\<open>trim\<close> strips the ASCII white space and line terminators,
  \<^verbatim>\<open>toUpperCase\<close> maps \<^verbatim>\<open>a..z\<close> to \<^verbatim>\<open>A..Z\<close> and keeps every other character.

  Its numbers are IEEE doubles. Every number the program handles is a non-negative integer,
  \<^verbatim>\<open>-1\<close> or \<^verbatim>\<open>Infinity\<close>, so a number is modelled as an integer or \<open>Infinity\<close>. Integers up to
  \<open>2 ^ 53\<close> are doubles; \<^verbatim>\<open>parseInt\<close> rounds a larger value to the nearest double (ties to
  the even significand, \<open>Infinity\<close> from \<open>2 ^ 1024 - 2 ^ 970\<close> on). The language lets an
  implementation approximate a digit run of more than 20 significant digits; the model rounds
  the exact value, as the common engines do. Index arithmetic (\<^verbatim>\<open>position - 1\<close>,
  \<^verbatim>\<open>idx - 1\<close>, \<^verbatim>\<open>idx + 1\<close>) is exact integer arithmetic: it only matters below the length of
  a string, which the language bounds by \<open>2 ^ 53 - 1\<close>.
\<close>

subsection \<open>Strings\<close>

definition isWhiteSpace :: "char \<Rightarrow> bool" where
  "isWhiteSpace c \<longleftrightarrow> c \<in> {CHR 0x09, CHR 0x0A, CHR 0x0B, CHR 0x0C, CHR 0x0D, CHR '' ''}"

definition trim :: "string \<Rightarrow> string" where
  "trim s = rev (dropWhile isWhiteSpace (rev (dropWhile isWhiteSpace s)))"

definition toUpperChar :: "char \<Rightarrow> char" where
  "toUpperChar c =
     (let n = (of_char c :: nat) in if 97 \<le> n \<and> n \<le> 122 then char_of (n - 32) else c)"

definition toUpperCase :: "string \<Rightarrow> string" where
  "toUpperCase s = map toUpperChar s"

text \<open>\<^verbatim>\<open>s.split(sep)\<close> for a one-character separator: never the empty list.\<close>

fun splitOn :: "char \<Rightarrow> string \<Rightarrow> string list" where
  "splitOn sep [] = [[]]"
| "splitOn sep (c # cs) =
     (if c = sep then [] # splitOn sep cs
      else (case splitOn sep cs of
              [] \<Rightarrow> [[c]]
            | l # ls \<Rightarrow> (c # l) # ls))"

text \<open>\<^verbatim>\<open>lines.join(sep)\<close>.\<close>

fun joinWith :: "string \<Rightarrow> string list \<Rightarrow> string" where
  "joinWith sep [] = []"
| "joinWith sep [l] = l"
| "joinWith sep (l # m # ls) = l @ sep @ joinWith sep (m # ls)"

definition startsWith :: "string \<Rightarrow> char \<Rightarrow> bool" where
  "startsWith s c = (case s of [] \<Rightarrow> False | d # _ \<Rightarrow> d = c)"

text \<open>\<^verbatim>\<open>s[i]\<close>: the character at an index inside the string, \<^verbatim>\<open>undefined\<close> (\<open>None\<close>) elsewhere.\<close>

datatype number = Finite int | Infinity

fun charAt :: "string \<Rightarrow> number \<Rightarrow> char option" where
  "charAt s (Finite i) = (if 0 \<le> i \<and> i < int (length s) then Some (s ! nat i) else None)"
| "charAt s Infinity = None"

text \<open>A character or \<^verbatim>\<open>undefined\<close> inside a template literal.\<close>

fun str :: "char option \<Rightarrow> string" where
  "str (Some c) = [c]"
| "str None = ''undefined''"

subsection \<open>Numbers\<close>

fun sub :: "number \<Rightarrow> int \<Rightarrow> number" where
  "sub (Finite i) k = Finite (i - k)"
| "sub Infinity k = Infinity"

fun add :: "number \<Rightarrow> int \<Rightarrow> number" where
  "add (Finite i) k = Finite (i + k)"
| "add Infinity k = Infinity"

fun lt :: "number \<Rightarrow> int \<Rightarrow> bool" where
  "lt (Finite i) k \<longleftrightarrow> i < k"
| "lt Infinity k \<longleftrightarrow> False"

fun gt :: "number \<Rightarrow> int \<Rightarrow> bool" where
  "gt (Finite i) k \<longleftrightarrow> i > k"
| "gt Infinity k \<longleftrightarrow> True"

fun ge :: "number \<Rightarrow> int \<Rightarrow> bool" where
  "ge (Finite i) k \<longleftrightarrow> i \<ge> k"
| "ge Infinity k \<longleftrightarrow> True"

text \<open>The double nearest to a non-negative integer.\<close>

definition toNumber :: "int \<Rightarrow> number" where
  "toNumber n =
     (if n < 2 ^ 53 then Finite n
      else let e = nat (bitlen n - 53);
               q = n div 2 ^ e;
               r = n mod 2 ^ e;
               h = 2 ^ (e - 1);
               m = (if r < h \<or> (r = h \<and> even q) then q else q + 1) * 2 ^ e
           in if m \<ge> 2 ^ 1024 then Infinity else Finite m)"

definition isDigit :: "char \<Rightarrow> bool" where
  "isDigit c \<longleftrightarrow> 48 \<le> (of_char c :: nat) \<and> (of_char c :: nat) \<le> 57"

definition digitValue :: "char \<Rightarrow> int" where
  "digitValue c = int (of_char c) - 48"

definition decimalValue :: "string \<Rightarrow> int" where
  "decimalValue ds = foldl (\<lambda>v c. 10 * v + digitValue c) 0 ds"

text \<open>\<^verbatim>\<open>parseInt(ds, 10)\<close> on a non-empty run of decimal digits.\<close>

definition parseInt :: "string \<Rightarrow> number" where
  "parseInt ds = toNumber (decimalValue ds)"

text \<open>
  A number inside a template literal. An integer below \<open>2 ^ 53\<close> prints its decimal digits. A
  larger double prints the least number of digits \<open>s\<close> with \<open>s * 10 ^ e\<close> reading back as the
  same double (the nearest such \<open>s\<close>), followed by zeros up to 21 digits and in exponent
  notation beyond.
\<close>

function digits :: "int \<Rightarrow> string" where
  "digits n =
     (if n < 10 then [char_of (48 + n)] else digits (n div 10) @ [char_of (48 + n mod 10)])"
  by pat_completeness auto
termination
  by (relation "measure nat") auto

declare digits.simps [simp del]

definition candidates :: "int \<Rightarrow> nat \<Rightarrow> int list" where
  "candidates x e =
     filter (\<lambda>s. 0 < s \<and> toNumber (s * 10 ^ e) = Finite x) [x div 10 ^ e, x div 10 ^ e + 1]"

definition shortest :: "int \<Rightarrow> int \<times> nat" where
  "shortest x =
     (case filter (\<lambda>e. candidates x e \<noteq> []) (rev [0..<Suc (length (digits x))]) of
        [] \<Rightarrow> (x, 0)
      | e # _ \<Rightarrow>
          (case candidates x e of
             [s, t] \<Rightarrow>
               if x - s * 10 ^ e < t * 10 ^ e - x \<or> (x - s * 10 ^ e = t * 10 ^ e - x \<and> even s)
               then (s, e) else (t, e)
           | s # _ \<Rightarrow> (s, e)
           | [] \<Rightarrow> (x, 0)))"

definition numberToString :: "number \<Rightarrow> string" where
  "numberToString v =
     (case v of
        Infinity \<Rightarrow> ''Infinity''
      | Finite i \<Rightarrow>
          if i < 0 then ''-'' @ digits (- i)
          else if i < 2 ^ 53 then digits i
          else let (s, e) = shortest i; ds = digits s; n = length ds + e
               in if n \<le> 21 then ds @ replicate e (CHR ''0'')
                  else if length ds = 1 then ds @ ''e+'' @ digits (int n - 1)
                  else [hd ds] @ ''.'' @ tl ds @ ''e+'' @ digits (int n - 1))"

section \<open>The program\<close>

subsection \<open>The catalogue of contexts\<close>

definition BASES :: "char list" where
  "BASES = [CHR ''A'', CHR ''C'', CHR ''G'', CHR ''T'']"

text \<open>The template \<^verbatim>\<open>${before}[${ref}>${alt}]${after}\<close>.\<close>

definition contextString :: "string \<Rightarrow> string \<Rightarrow> string \<Rightarrow> string \<Rightarrow> string" where
  "contextString before ref alt after = before @ ''['' @ ref @ ''>'' @ alt @ '']'' @ after"

text \<open>The four nested loops of \<^verbatim>\<open>generateAllContexts\<close>, each pushing onto \<^verbatim>\<open>contexts\<close>.\<close>

definition generateAllContexts :: "string list" where
  "generateAllContexts =
     foldl (\<lambda>contexts before.
       foldl (\<lambda>contexts ref.
         foldl (\<lambda>contexts alt.
           if ref \<noteq> alt
           then foldl (\<lambda>contexts after.
                  contexts @ [contextString [before] [ref] [alt] [after]]) contexts BASES
           else contexts) contexts BASES) contexts BASES) [] BASES"

definition ALL_CONTEXTS :: "string list" where
  "ALL_CONTEXTS = generateAllContexts"

subsection \<open>Parsing the sequence\<close>

definition parseFasta :: "string \<Rightarrow> string" where
  "parseFasta text =
     (let lines = splitOn (CHR 0x0A) (trim text)
      in foldl (\<lambda>sequence line.
                  let trimmed = trim line
                  in if \<not> startsWith trimmed (CHR ''>'') then sequence @ toUpperCase trimmed
                     else sequence) [] lines)"

text \<open>
  The parser as the specification words it: split the text into lines, trim each, drop the
  lines that start with \<^verbatim>\<open>>\<close>, concatenate the rest and uppercase the result.
\<close>

definition parseFasta_spec :: "string \<Rightarrow> string" where
  "parseFasta_spec text =
     toUpperCase (concat (filter (\<lambda>l. \<not> startsWith l (CHR ''>''))
                                 (map trim (splitOn (CHR 0x0A) text))))"

subsection \<open>Parsing a mutation\<close>

record mutation =
  ref :: char
  position :: number
  alt :: char

text \<open>
  The pattern \<^verbatim>\<open>/^([ACGT])(\d+)([ACGT])$/\<close>, matched from the start of the string: one base,
  the longest run of digits (at least one), one base, the end of the string. The three
  captures are returned.
\<close>

definition matchMutation :: "string \<Rightarrow> (char \<times> string \<times> char) option" where
  "matchMutation s =
     (case s of
        [] \<Rightarrow> None
      | r # rest \<Rightarrow>
          if r \<notin> set BASES then None
          else let ds = takeWhile isDigit rest
               in if ds = [] then None
                  else (case dropWhile isDigit rest of
                          [a] \<Rightarrow> if a \<in> set BASES then Some (r, ds, a) else None
                        | _ \<Rightarrow> None))"

definition parseMutation :: "string \<Rightarrow> mutation option" where
  "parseMutation mutStr =
     (let trimmed = toUpperCase (trim mutStr)
      in case matchMutation trimmed of
           None \<Rightarrow> None
         | Some (m1, m2, m3) \<Rightarrow> Some \<lparr>ref = m1, position = parseInt m2, alt = m3\<rparr>)"

subsection \<open>Contextualising a mutation\<close>

record context_result = mutation +
  "context" :: string
  before :: "char option"
  after :: "char option"

text \<open>
  \<^verbatim>\<open>contextualiseMutation\<close> returns either \<^verbatim>\<open>{ error }\<close> (\<open>Inl\<close>) or the context object
  (\<open>Inr\<close>). The second component lists, in the order of evaluation, the indices at which
  the function reads \<^verbatim>\<open>sequence[...]\<close>.
\<close>

definition contextualiseMutation_traced ::
  "string \<Rightarrow> mutation \<Rightarrow> (string + context_result) \<times> number list" where
  "contextualiseMutation_traced sequence mutation =
     (let idx = sub (position mutation) 1
      in if lt idx 0 \<or> ge idx (int (length sequence))
         then (Inl (''Position '' @ numberToString (position mutation)
                    @ '' out of range (sequence length: ''
                    @ numberToString (Finite (int (length sequence))) @ '')''), [])
         else let actualBase = charAt sequence idx
              in if actualBase \<noteq> Some (ref mutation)
                 then (Inl (''Reference mismatch at position ''
                            @ numberToString (position mutation)
                            @ '': expected '' @ [ref mutation]
                            @ '', found '' @ str actualBase), [idx])
                 else let before = (if gt idx 0 then charAt sequence (sub idx 1)
                                    else Some (CHR ''N''));
                          after = (if lt idx (int (length sequence) - 1)
                                   then charAt sequence (add idx 1)
                                   else Some (CHR ''N''))
                      in (Inr \<lparr>ref = ref mutation, position = position mutation,
                               alt = alt mutation,
                               context = contextString (str before) [ref mutation]
                                           [alt mutation] (str after),
                               before = before, after = after\<rparr>,
                          [idx] @ (if gt idx 0 then [sub idx 1] else [])
                                @ (if lt idx (int (length sequence) - 1) then [add idx 1]
                                   else [])))"

definition contextualiseMutation :: "string \<Rightarrow> mutation \<Rightarrow> string + context_result" where
  "contextualiseMutation sequence mutation = fst (contextualiseMutation_traced sequence mutation)"

subsection \<open>The aggregate computation\<close>

text \<open>An entry of \<^verbatim>\<open>contextualised\<close>: \<^verbatim>\<open>{ original, error }\<close> or \<^verbatim>\<open>{ original, ...result }\<close>.\<close>

datatype outcome =
    ErrorResult (original: string) (error: string)
  | ContextResult (original: string) context_result

text \<open>One pass of the loop over \<^verbatim>\<open>mutationStrings\<close>.\<close>

definition processMutation ::
  "string \<Rightarrow> outcome list \<times> (string \<rightharpoonup> nat) \<Rightarrow> string
     \<Rightarrow> outcome list \<times> (string \<rightharpoonup> nat)" where
  "processMutation sequence state mutStr =
     (let (contextualised, counts) = state
      in case parseMutation mutStr of
           None \<Rightarrow> (contextualised @ [ErrorResult mutStr ''Invalid mutation format''], counts)
         | Some mutation \<Rightarrow>
             (case contextualiseMutation sequence mutation of
                Inl err \<Rightarrow> (contextualised @ [ErrorResult mutStr err], counts)
              | Inr result \<Rightarrow>
                  (contextualised @ [ContextResult mutStr result],
                   if context result \<in> dom counts
                   then counts(context result \<mapsto> the (counts (context result)) + 1)
                   else counts)))"

text \<open>The tokens: \<^verbatim>\<open>mutationsInput.split(',').map(s => s.trim()).filter(s => s.length > 0)\<close>.\<close>

definition mutationStrings :: "string \<Rightarrow> string list" where
  "mutationStrings mutationsInput =
     filter (\<lambda>s. length s > 0) (map (\<lambda>s. trim s) (splitOn (CHR '','') mutationsInput))"

text \<open>
  The value of \<^verbatim>\<open>results\<close>. The object \<^verbatim>\<open>counts\<close> is a map from its own keys to numbers.
  The object returned for an empty sequence has no \<^verbatim>\<open>sequence\<close> property.
\<close>

record results =
  contextualised :: "outcome list"
  counts :: "string \<rightharpoonup> nat"
  sequence :: "string option"

definition computeResults :: "string \<Rightarrow> string \<Rightarrow> results" where
  "computeResults fastaInput mutationsInput =
     (let sequence = parseFasta fastaInput
      in if sequence = [] then \<lparr>contextualised = [], counts = Map.empty, sequence = None\<rparr>
         else let mutationStrings = mutationStrings mutationsInput;
                  counts = foldl (\<lambda>counts ctx. counts(ctx \<mapsto> 0)) Map.empty ALL_CONTEXTS;
                  (contextualised, counts) =
                    foldl (processMutation sequence) ([], counts) mutationStrings
              in \<lparr>contextualised = contextualised, counts = counts,
                  sequence = Some sequence\<rparr>)"

subsection \<open>The table\<close>

text \<open>\<^verbatim>\<open>results.counts[ctx] || 0\<close>: a missing count is \<^verbatim>\<open>undefined\<close>, which gives 0.\<close>

definition countOr0 :: "results \<Rightarrow> string \<Rightarrow> nat" where
  "countOr0 results ctx =
     (case counts results ctx of None \<Rightarrow> 0 | Some n \<Rightarrow> if n = 0 then 0 else n)"

definition tsvOutput :: "results \<Rightarrow> string" where
  "tsvOutput results =
     (let lines = foldl (\<lambda>lines ctx.
                    lines @ [ctx @ [CHR 0x09] @ numberToString (Finite (int (countOr0 results ctx)))])
                    [''Context'' @ [CHR 0x09] @ ''Count''] ALL_CONTEXTS
      in joinWith [CHR 0x0A] lines)"

section \<open>Notions used to state the properties\<close>

text \<open>The entry that one pass of the loop pushes for a token.\<close>

definition outcomeOf :: "string \<Rightarrow> string \<Rightarrow> outcome" where
  "outcomeOf sq mutStr = last (fst (processMutation sq ([], Map.empty) mutStr))"

text \<open>
  The tokens that the count conservation property counts: those that parse, pass the bounds
  and reference checks against the sequence, and whose context string is in the catalogue.
\<close>

definition countedToken :: "string \<Rightarrow> string \<Rightarrow> bool" where
  "countedToken sq mutStr =
     (case parseMutation mutStr of
        None \<Rightarrow> False
      | Some m \<Rightarrow>
          (case contextualiseMutation sq m of
             Inl _ \<Rightarrow> False
           | Inr r \<Rightarrow> context r \<in> set ALL_CONTEXTS))"

text \<open>The sum of all counts of a table.\<close>

definition sumCounts :: "(string \<rightharpoonup> nat) \<Rightarrow> nat" where
  "sumCounts c = (\<Sum>k \<in> dom c. the (c k))"

section \<open>Properties\<close>

subsection \<open>The catalogue\<close>

lemma catalogue_eq:
  "generateAllContexts =
     [contextString [b] [r] [a] [f]. b \<leftarrow> BASES, r \<leftarrow> BASES, a \<leftarrow> BASES, r \<noteq> a, f \<leftarrow> BASES]"
  by (simp add: generateAllContexts_def BASES_def)

lemma catalogue_length: "length generateAllContexts = 192"
  by (simp add: generateAllContexts_def BASES_def)

text \<open>
  The catalogue is four blocks, one per \<open>before\<close>, over the same 48 tails; the tails are
  distinct and the blocks differ in their first character.
\<close>

lemma catalogue_distinct: "distinct generateAllContexts"
proof -
  define tails where
    "tails = [contextString [] [r] [a] [f]. r \<leftarrow> BASES, a \<leftarrow> BASES, r \<noteq> a, f \<leftarrow> BASES]"
  have blocks: "generateAllContexts = concat (map (\<lambda>b. map ((#) b) tails) BASES)"
    unfolding tails_def by (simp add: generateAllContexts_def BASES_def contextString_def)
  have "distinct tails"
    unfolding tails_def by (simp add: BASES_def contextString_def)
  then show ?thesis
    unfolding blocks BASES_def by (auto simp: distinct_map)
qed

lemma catalogue_set:
  "set generateAllContexts =
     {contextString [b] [r] [a] [f] | b r a f.
        b \<in> set BASES \<and> r \<in> set BASES \<and> a \<in> set BASES \<and> r \<noteq> a \<and> f \<in> set BASES}"
  unfolding catalogue_eq by auto

text \<open>
  C1. \<^verbatim>\<open>generateAllContexts\<close> returns the strings \<open>before[ref>alt]after\<close> in the nesting order
  \<open>before\<close>, \<open>ref\<close>, \<open>alt\<close> (skipping \<open>alt = ref\<close>), \<open>after\<close>, each over A, C, G, T; there
  are 192 of them and they are pairwise distinct. The function has no argument and no state,
  so every call yields this list.
\<close>

theorem generateAllContexts_catalogue:
  "generateAllContexts =
     [contextString [b] [r] [a] [f]. b \<leftarrow> BASES, r \<leftarrow> BASES, a \<leftarrow> BASES, r \<noteq> a, f \<leftarrow> BASES]
   \<and> length generateAllContexts = 192
   \<and> distinct generateAllContexts"
  using catalogue_eq catalogue_length catalogue_distinct by simp

subsection \<open>Numbers in text\<close>

text \<open>
  Below \<open>2 ^ 53\<close> a number prints as its decimal numeral: digits only, no leading zero,
  and the digits read back as the number.
\<close>

lemma digit_char:
  assumes "0 \<le> n" and "n < 10"
  shows "isDigit (char_of (48 + n :: int))"
proof -
  define m where "m = nat n"
  have n: "n = int m" and m: "m < 10" using assms by (simp_all add: m_def)
  have "char_of (48 + n) = char_of (48 + m)"
    unfolding n by (metis char_of_nat of_nat_add of_nat_numeral)
  moreover have "(48 + m) mod 256 = 48 + m" using m by simp
  ultimately show ?thesis using m by (simp add: isDigit_def)
qed

lemma digits_are_digits: "0 \<le> n \<Longrightarrow> c \<in> set (digits n) \<Longrightarrow> isDigit c"
proof (induction n arbitrary: c rule: digits.induct)
  case (1 n)
  show ?case
  proof (cases "n < 10")
    case True
    then have "digits n = [char_of (48 + n)]" by (subst digits.simps) simp
    then show ?thesis using "1.prems" True digit_char [of n] by simp
  next
    case False
    then have "digits n = digits (n div 10) @ [char_of (48 + n mod 10)]"
      by (subst digits.simps) simp
    then have "c \<in> set (digits (n div 10)) \<or> c = char_of (48 + n mod 10)"
      using "1.prems"(2) by auto
    moreover have "0 \<le> n div 10" "0 \<le> n mod 10" "n mod 10 < 10"
      using "1.prems"(1) by simp_all
    ultimately show ?thesis
      using "1.IH" [OF False, of c] digit_char [of "n mod 10"] by blast
  qed
qed

lemma candidates_positive: "s \<in> set (candidates x e) \<Longrightarrow> 0 < s"
  by (auto simp add: candidates_def split: if_splits)

lemma shortest_nonnegative:
  assumes "0 \<le> x"
  shows "0 \<le> fst (shortest x)"
proof -
  have "\<And>e s ss. candidates x e = s # ss \<Longrightarrow> 0 < s"
    using candidates_positive by (metis list.set_intros(1))
  moreover have "\<And>e s t ss. candidates x e = s # t # ss \<Longrightarrow> 0 < t"
    using candidates_positive by (metis list.set_intros(1) list.set_intros(2))
  ultimately show ?thesis
    using assms unfolding shortest_def
    by (auto split: list.splits simp add: less_imp_le)
qed

lemma newline_not_digit: "isDigit c \<Longrightarrow> c \<noteq> CHR 0x0A"
  by (auto simp add: isDigit_def)

lemma digits_not_Nil: "digits n \<noteq> []"
  by (subst digits.simps) simp

lemma numberToString_no_newline: "CHR 0x0A \<notin> set (numberToString (Finite (int n)))"
proof (cases "int n < 2 ^ 53")
  case True
  then have "numberToString (Finite (int n)) = digits (int n)"
    by (simp add: numberToString_def)
  then show ?thesis
    using digits_are_digits [of "int n" "CHR 0x0A"] newline_not_digit by auto
next
  case False
  obtain s e where se: "shortest (int n) = (s, e)" by (cases "shortest (int n)")
  define ds where "ds = digits s"
  define k where "k = length ds + e"
  have s: "0 \<le> s" using shortest_nonnegative [of "int n"] se by simp
  have d: "CHR 0x0A \<notin> set ds"
    unfolding ds_def using digits_are_digits [OF s] newline_not_digit by blast
  have ne: "ds \<noteq> []" unfolding ds_def by (rule digits_not_Nil)
  have h: "hd ds \<noteq> CHR 0x0A" using d ne by (cases ds) auto
  have t: "CHR 0x0A \<notin> set (tl ds)" using d ne by (cases ds) auto
  have x: "CHR 0x0A \<notin> set (digits (int k - 1))" if "\<not> k \<le> 21"
  proof -
    have "0 \<le> int k - 1" using that by simp
    then show ?thesis using digits_are_digits newline_not_digit by blast
  qed
  have eq: "numberToString (Finite (int n)) =
          (if k \<le> 21 then ds @ replicate e (CHR ''0'')
           else if length ds = 1 then ds @ ''e+'' @ digits (int k - 1)
           else [hd ds] @ ''.'' @ tl ds @ ''e+'' @ digits (int k - 1))"
    using False by (simp add: numberToString_def se Let_def ds_def k_def)
  show ?thesis
  proof (cases "k \<le> 21")
    case True
    then show ?thesis unfolding eq using d by simp
  next
    case False
    then show ?thesis unfolding eq using d h t x [OF False] by simp
  qed
qed


lemma digitValue_char:
  assumes "0 \<le> n" and "n < 10"
  shows "digitValue (char_of (48 + n :: int)) = n"
proof -
  define m where "m = nat n"
  have n: "n = int m" and m: "m < 10" using assms by (simp_all add: m_def)
  have "char_of (48 + n) = char_of (48 + m)"
    unfolding n by (metis char_of_nat of_nat_add of_nat_numeral)
  moreover have "(48 + m) mod 256 = 48 + m" using m by simp
  ultimately show ?thesis using m by (simp add: digitValue_def n)
qed

lemma decimalValue_snoc: "decimalValue (ds @ [c]) = 10 * decimalValue ds + digitValue c"
  by (simp add: decimalValue_def)

lemma decimalValue_digits: "0 \<le> n \<Longrightarrow> decimalValue (digits n) = n"
proof (induction n rule: digits.induct)
  case (1 n)
  show ?case
  proof (cases "n < 10")
    case True
    then have "digits n = [] @ [char_of (48 + n)]" by (subst digits.simps) simp
    then show ?thesis
      using "1.prems" True digitValue_char [of n]
      by (simp only: decimalValue_snoc) (simp add: decimalValue_def)
  next
    case False
    then have d: "digits n = digits (n div 10) @ [char_of (48 + n mod 10)]"
      by (subst digits.simps) simp
    have "0 \<le> n div 10" "0 \<le> n mod 10" "n mod 10 < 10"
      using "1.prems" by simp_all
    then show ?thesis
      using "1.IH" [OF False] digitValue_char [of "n mod 10"]
      by (simp add: d decimalValue_snoc)
  qed
qed

lemma digits_no_leading_zero: "0 < n \<Longrightarrow> hd (digits n) \<noteq> CHR ''0''"
proof (induction n rule: digits.induct)
  case (1 n)
  show ?case
  proof (cases "n < 10")
    case True
    then have d: "digits n = [char_of (48 + n)]" by (subst digits.simps) simp
    have "digitValue (char_of (48 + n)) = n"
      using "1.prems" True by (intro digitValue_char) simp_all
    moreover have "digitValue (CHR ''0'') = 0" by (simp add: digitValue_def)
    ultimately show ?thesis using "1.prems" by (auto simp add: d)
  next
    case False
    then have d: "digits n = digits (n div 10) @ [char_of (48 + n mod 10)]"
      by (subst digits.simps) simp
    have "0 < n div 10" using False by simp
    then show ?thesis
      using "1.IH" [OF False] by (simp add: d digits_not_Nil)
  qed
qed

lemma numberToString_decimal:
  assumes "0 \<le> n" and "n < 2 ^ 53"
  shows "numberToString (Finite n) \<noteq> []"
    and "\<forall>c \<in> set (numberToString (Finite n)). isDigit c"
    and "decimalValue (numberToString (Finite n)) = n"
    and "0 < n \<longrightarrow> hd (numberToString (Finite n)) \<noteq> CHR ''0''"
proof -
  have e: "numberToString (Finite n) = digits n"
    using assms by (simp add: numberToString_def)
  show "numberToString (Finite n) \<noteq> []" unfolding e by (rule digits_not_Nil)
  show "\<forall>c \<in> set (numberToString (Finite n)). isDigit c"
    unfolding e using digits_are_digits [OF assms(1)] by blast
  show "decimalValue (numberToString (Finite n)) = n"
    unfolding e using assms(1) by (rule decimalValue_digits)
  show "0 < n \<longrightarrow> hd (numberToString (Finite n)) \<noteq> CHR ''0''"
    unfolding e using digits_no_leading_zero by blast
qed

lemma example_numbers:
  "numberToString (Finite 0) = ''0''"
  "numberToString (Finite 1) = ''1''"
  "numberToString (Finite 5) = ''5''"
  "numberToString (Finite 10) = ''10''"
  "numberToString (Finite 11) = ''11''"
  "numberToString (Finite 12) = ''12''"
  "numberToString Infinity = ''Infinity''"
  by code_simp+

lemma example_large_numbers:
  "numberToString (Finite 9007199254740992) = ''9007199254740992''"
  "numberToString (Finite 1000000000000000000000) = ''1e+21''"
  by code_simp+

subsection \<open>Contextualising a mutation\<close>

lemma contextualiseMutation_Infinity:
  "position m = Infinity \<Longrightarrow>
   contextualiseMutation sq m =
     Inl (''Position '' @ numberToString (position m) @ '' out of range (sequence length: ''
          @ numberToString (Finite (int (length sq))) @ '')'')"
  by (simp add: contextualiseMutation_def contextualiseMutation_traced_def)

lemma contextualiseMutation_Finite:
  "position m = Finite p \<Longrightarrow>
   contextualiseMutation sq m =
     (if p - 1 < 0 \<or> p - 1 \<ge> int (length sq)
      then Inl (''Position '' @ numberToString (position m) @ '' out of range (sequence length: ''
                @ numberToString (Finite (int (length sq))) @ '')'')
      else if sq ! nat (p - 1) \<noteq> ref m
      then Inl (''Reference mismatch at position '' @ numberToString (position m)
                @ '': expected '' @ [ref m] @ '', found '' @ [sq ! nat (p - 1)])
      else let b = (if p - 1 > 0 then sq ! nat (p - 2) else CHR ''N'');
               a = (if p - 1 < int (length sq) - 1 then sq ! nat p else CHR ''N'')
           in Inr \<lparr>ref = ref m, position = position m, alt = alt m,
                   context = [b] @ ''['' @ [ref m] @ ''>'' @ [alt m] @ '']'' @ [a],
                   before = Some b, after = Some a\<rparr>)"
  by (auto simp add: contextualiseMutation_def contextualiseMutation_traced_def Let_def
        contextString_def nat_diff_distrib)

text \<open>
  C2. For every sequence \<open>sq\<close> and every mutation \<open>m\<close>: \<^verbatim>\<open>contextualiseMutation\<close> fails with
  the message \<open>Position {position} out of range (sequence length: {length})\<close> exactly when
  \<open>position - 1 < 0\<close> or \<open>position - 1 \<ge> length sq\<close> (which includes the position
  \<open>Infinity\<close>). Otherwise, with \<open>p\<close> the position, it fails with
  \<open>Reference mismatch at position {position}: expected {ref}, found {actualBase}\<close>, where
  \<open>actualBase\<close> is the character at index \<open>p - 1\<close>, exactly when that character differs from
  \<open>ref\<close>. Otherwise it succeeds with \<open>before\<close> the character at index \<open>p - 2\<close> when
  \<open>p - 1 > 0\<close> and \<open>N\<close> else, \<open>after\<close> the character at index \<open>p\<close> when
  \<open>p - 1 < length sq - 1\<close> and \<open>N\<close> else, and \<open>context = {before}[{ref}>{alt}]{after}\<close>.
  The numbers in the messages are decimal numerals: below \<open>2 ^ 53\<close> the text of a number is
  not empty, consists of digits, reads back as the number and has no leading zero;
  \<open>Infinity\<close> prints as \<open>Infinity\<close>.
\<close>

theorem contextualiseMutation_outcome:
  "(contextualiseMutation sq m =
      Inl (''Position '' @ numberToString (position m) @ '' out of range (sequence length: ''
           @ numberToString (Finite (int (length sq))) @ '')'')
    \<longleftrightarrow> (case position m of Finite p \<Rightarrow> p - 1 < 0 \<or> p - 1 \<ge> int (length sq) | Infinity \<Rightarrow> True))
   \<and> (\<forall>p. position m = Finite p \<and> \<not> (p - 1 < 0 \<or> p - 1 \<ge> int (length sq)) \<longrightarrow>
        (contextualiseMutation sq m =
           Inl (''Reference mismatch at position '' @ numberToString (position m)
                @ '': expected '' @ [ref m] @ '', found '' @ [sq ! nat (p - 1)])
         \<longleftrightarrow> sq ! nat (p - 1) \<noteq> ref m)
        \<and> (sq ! nat (p - 1) = ref m \<longrightarrow>
             (let b = (if p - 1 > 0 then sq ! nat (p - 2) else CHR ''N'');
                  a = (if p - 1 < int (length sq) - 1 then sq ! nat p else CHR ''N'')
              in contextualiseMutation sq m =
                   Inr \<lparr>ref = ref m, position = position m, alt = alt m,
                        context = [b] @ ''['' @ [ref m] @ ''>'' @ [alt m] @ '']'' @ [a],
                        before = Some b, after = Some a\<rparr>)))
   \<and> (\<forall>n. 0 \<le> n \<and> n < 2 ^ 53 \<longrightarrow>
          numberToString (Finite n) \<noteq> []
          \<and> (\<forall>c \<in> set (numberToString (Finite n)). isDigit c)
          \<and> decimalValue (numberToString (Finite n)) = n
          \<and> (0 < n \<longrightarrow> hd (numberToString (Finite n)) \<noteq> CHR ''0''))
   \<and> numberToString Infinity = ''Infinity''"
proof (intro conjI)
  show "contextualiseMutation sq m =
      Inl (''Position '' @ numberToString (position m) @ '' out of range (sequence length: ''
           @ numberToString (Finite (int (length sq))) @ '')'')
    \<longleftrightarrow> (case position m of Finite p \<Rightarrow> p - 1 < 0 \<or> p - 1 \<ge> int (length sq) | Infinity \<Rightarrow> True)"
  proof (cases "position m")
    case Infinity
    then show ?thesis by (simp add: contextualiseMutation_Infinity)
  next
    case (Finite p)
    show ?thesis
      by (simp add: Finite contextualiseMutation_Finite [OF Finite] Let_def)
  qed
  show "\<forall>p. position m = Finite p \<and> \<not> (p - 1 < 0 \<or> p - 1 \<ge> int (length sq)) \<longrightarrow>
        (contextualiseMutation sq m =
           Inl (''Reference mismatch at position '' @ numberToString (position m)
                @ '': expected '' @ [ref m] @ '', found '' @ [sq ! nat (p - 1)])
         \<longleftrightarrow> sq ! nat (p - 1) \<noteq> ref m)
        \<and> (sq ! nat (p - 1) = ref m \<longrightarrow>
             (let b = (if p - 1 > 0 then sq ! nat (p - 2) else CHR ''N'');
                  a = (if p - 1 < int (length sq) - 1 then sq ! nat p else CHR ''N'')
              in contextualiseMutation sq m =
                   Inr \<lparr>ref = ref m, position = position m, alt = alt m,
                        context = [b] @ ''['' @ [ref m] @ ''>'' @ [alt m] @ '']'' @ [a],
                        before = Some b, after = Some a\<rparr>))"
  proof (intro allI impI)
    fix p
    assume "position m = Finite p \<and> \<not> (p - 1 < 0 \<or> p - 1 \<ge> int (length sq))"
    then have Finite: "position m = Finite p" and r: "\<not> (p - 1 < 0 \<or> p - 1 \<ge> int (length sq))"
      by simp_all
    show "(contextualiseMutation sq m =
           Inl (''Reference mismatch at position '' @ numberToString (position m)
                @ '': expected '' @ [ref m] @ '', found '' @ [sq ! nat (p - 1)])
         \<longleftrightarrow> sq ! nat (p - 1) \<noteq> ref m)
        \<and> (sq ! nat (p - 1) = ref m \<longrightarrow>
             (let b = (if p - 1 > 0 then sq ! nat (p - 2) else CHR ''N'');
                  a = (if p - 1 < int (length sq) - 1 then sq ! nat p else CHR ''N'')
              in contextualiseMutation sq m =
                   Inr \<lparr>ref = ref m, position = position m, alt = alt m,
                        context = [b] @ ''['' @ [ref m] @ ''>'' @ [alt m] @ '']'' @ [a],
                        before = Some b, after = Some a\<rparr>))"
      using r by (simp add: contextualiseMutation_Finite [OF Finite] Let_def)
  qed
  show "\<forall>n. 0 \<le> n \<and> n < 2 ^ 53 \<longrightarrow>
          numberToString (Finite n) \<noteq> []
          \<and> (\<forall>c \<in> set (numberToString (Finite n)). isDigit c)
          \<and> decimalValue (numberToString (Finite n)) = n
          \<and> (0 < n \<longrightarrow> hd (numberToString (Finite n)) \<noteq> CHR ''0'')"
    using numberToString_decimal by blast
  show "numberToString Infinity = ''Infinity''"
    by (simp add: numberToString_def)
qed

theorem contextualiseMutation_outcome_witness:
  "contextualiseMutation ''ACGTACGTAC'' \<lparr>ref = CHR ''G'', position = Finite 3, alt = CHR ''C''\<rparr> =
       Inr \<lparr>ref = CHR ''G'', position = Finite 3, alt = CHR ''C'', context = ''C[G>C]T'',
            before = Some (CHR ''C''), after = Some (CHR ''T'')\<rparr>
   \<and> contextualiseMutation ''ACGTACGTAC'' \<lparr>ref = CHR ''A'', position = Finite 1, alt = CHR ''T''\<rparr> =
       Inr \<lparr>ref = CHR ''A'', position = Finite 1, alt = CHR ''T'', context = ''N[A>T]C'',
            before = Some (CHR ''N''), after = Some (CHR ''C'')\<rparr>
   \<and> contextualiseMutation ''ACGTACGTAC'' \<lparr>ref = CHR ''G'', position = Finite 5, alt = CHR ''C''\<rparr> =
       Inl ''Reference mismatch at position 5: expected G, found A''
   \<and> contextualiseMutation ''ACGTACGTAC'' \<lparr>ref = CHR ''C'', position = Finite 11, alt = CHR ''G''\<rparr> =
       Inl ''Position 11 out of range (sequence length: 10)''
   \<and> contextualiseMutation ''ACGTACGTAC'' \<lparr>ref = CHR ''G'', position = Finite 0, alt = CHR ''C''\<rparr> =
       Inl ''Position 0 out of range (sequence length: 10)''
   \<and> contextualiseMutation ''ACGTACGTAC''
         \<lparr>ref = CHR ''A'', position = Finite 9007199254740992, alt = CHR ''T''\<rparr> =
       Inl ''Position 9007199254740992 out of range (sequence length: 10)''
   \<and> contextualiseMutation ''ACGTACGTAC''
         \<lparr>ref = CHR ''A'', position = Finite 1000000000000000000000, alt = CHR ''T''\<rparr> =
       Inl ''Position 1e+21 out of range (sequence length: 10)''
   \<and> contextualiseMutation ''ACGTACGTAC'' \<lparr>ref = CHR ''A'', position = Infinity, alt = CHR ''T''\<rparr> =
       Inl ''Position Infinity out of range (sequence length: 10)''
   \<and> decimalValue (numberToString (Finite 12)) = 12
   \<and> numberToString (Finite 12) = ''12''"
proof -
  have a: "contextualiseMutation ''ACGTACGTAC'' \<lparr>ref = CHR ''G'', position = Finite 3, alt = CHR ''C''\<rparr> =
       Inr \<lparr>ref = CHR ''G'', position = Finite 3, alt = CHR ''C'', context = ''C[G>C]T'',
            before = Some (CHR ''C''), after = Some (CHR ''T'')\<rparr>"
    using contextualiseMutation_outcome
      [of "''ACGTACGTAC''" "\<lparr>ref = CHR ''G'', position = Finite 3, alt = CHR ''C''\<rparr>"]
    by (simp add: Let_def)
  have b: "contextualiseMutation ''ACGTACGTAC'' \<lparr>ref = CHR ''A'', position = Finite 1, alt = CHR ''T''\<rparr> =
       Inr \<lparr>ref = CHR ''A'', position = Finite 1, alt = CHR ''T'', context = ''N[A>T]C'',
            before = Some (CHR ''N''), after = Some (CHR ''C'')\<rparr>"
    using contextualiseMutation_outcome
      [of "''ACGTACGTAC''" "\<lparr>ref = CHR ''A'', position = Finite 1, alt = CHR ''T''\<rparr>"]
    by (simp add: Let_def)
  have c: "contextualiseMutation ''ACGTACGTAC'' \<lparr>ref = CHR ''G'', position = Finite 5, alt = CHR ''C''\<rparr> =
       Inl ''Reference mismatch at position 5: expected G, found A''"
    using contextualiseMutation_outcome
      [of "''ACGTACGTAC''" "\<lparr>ref = CHR ''G'', position = Finite 5, alt = CHR ''C''\<rparr>"]
    by (simp add: example_numbers)
  have d: "contextualiseMutation ''ACGTACGTAC'' \<lparr>ref = CHR ''C'', position = Finite 11, alt = CHR ''G''\<rparr> =
       Inl ''Position 11 out of range (sequence length: 10)''"
    using contextualiseMutation_outcome
      [of "''ACGTACGTAC''" "\<lparr>ref = CHR ''C'', position = Finite 11, alt = CHR ''G''\<rparr>"]
    by (simp add: example_numbers)
  have e: "contextualiseMutation ''ACGTACGTAC'' \<lparr>ref = CHR ''G'', position = Finite 0, alt = CHR ''C''\<rparr> =
       Inl ''Position 0 out of range (sequence length: 10)''"
    using contextualiseMutation_outcome
      [of "''ACGTACGTAC''" "\<lparr>ref = CHR ''G'', position = Finite 0, alt = CHR ''C''\<rparr>"]
    by (simp add: example_numbers)
  have f: "contextualiseMutation ''ACGTACGTAC''
         \<lparr>ref = CHR ''A'', position = Finite 9007199254740992, alt = CHR ''T''\<rparr> =
       Inl ''Position 9007199254740992 out of range (sequence length: 10)''"
    using contextualiseMutation_outcome
      [of "''ACGTACGTAC''" "\<lparr>ref = CHR ''A'', position = Finite 9007199254740992, alt = CHR ''T''\<rparr>"]
    by (simp add: example_numbers example_large_numbers)
  have g: "contextualiseMutation ''ACGTACGTAC''
         \<lparr>ref = CHR ''A'', position = Finite 1000000000000000000000, alt = CHR ''T''\<rparr> =
       Inl ''Position 1e+21 out of range (sequence length: 10)''"
    using contextualiseMutation_outcome
      [of "''ACGTACGTAC''" "\<lparr>ref = CHR ''A'', position = Finite 1000000000000000000000, alt = CHR ''T''\<rparr>"]
    by (simp add: example_numbers example_large_numbers)
  have h: "contextualiseMutation ''ACGTACGTAC'' \<lparr>ref = CHR ''A'', position = Infinity, alt = CHR ''T''\<rparr> =
       Inl ''Position Infinity out of range (sequence length: 10)''"
    using contextualiseMutation_outcome
      [of "''ACGTACGTAC''" "\<lparr>ref = CHR ''A'', position = Infinity, alt = CHR ''T''\<rparr>"]
    by (simp add: example_numbers)
  have i: "decimalValue (numberToString (Finite 12)) = 12"
    using contextualiseMutation_outcome
      [of "''ACGTACGTAC''" "\<lparr>ref = CHR ''G'', position = Finite 3, alt = CHR ''C''\<rparr>"]
    by simp
  have j: "numberToString (Finite 12) = ''12''"
    by (simp add: example_numbers)
  show ?thesis using a b c d e f g h i j by (intro conjI)
qed

text \<open>
  C10. Every index at which \<^verbatim>\<open>contextualiseMutation\<close> reads the sequence (\<open>idx\<close> for the
  reference check, \<open>idx - 1\<close> and \<open>idx + 1\<close> for the flanks) lies in
  \<open>[0, length sq - 1]\<close>, so the read returns a character of the sequence and never
  \<^verbatim>\<open>undefined\<close>.
\<close>

theorem contextualiseMutation_reads_in_bounds:
  "\<forall>i \<in> set (snd (contextualiseMutation_traced sq m)).
     \<exists>k. i = Finite k \<and> 0 \<le> k \<and> k < int (length sq) \<and> charAt sq i = Some (sq ! nat k)"
proof (cases "position m")
  case Infinity
  then show ?thesis by (simp add: contextualiseMutation_traced_def)
next
  case (Finite p)
  then show ?thesis
    by (auto simp add: contextualiseMutation_traced_def Let_def)
qed

theorem contextualiseMutation_reads_in_bounds_witness:
  "snd (contextualiseMutation_traced ''ACGTACGTAC''
          \<lparr>ref = CHR ''G'', position = Finite 3, alt = CHR ''C''\<rparr>) = [Finite 2, Finite 1, Finite 3]
   \<and> charAt ''ACGTACGTAC'' (Finite 2) = Some (CHR ''G'')
   \<and> charAt ''ACGTACGTAC'' (Finite 1) = Some (CHR ''C'')
   \<and> charAt ''ACGTACGTAC'' (Finite 3) = Some (CHR ''T'')"
proof -
  have reads:
    "snd (contextualiseMutation_traced ''ACGTACGTAC''
            \<lparr>ref = CHR ''G'', position = Finite 3, alt = CHR ''C''\<rparr>) = [Finite 2, Finite 1, Finite 3]"
    by (simp add: contextualiseMutation_traced_def)
  have "\<forall>i \<in> set [Finite 2, Finite 1, Finite 3].
          \<exists>k. i = Finite k \<and> 0 \<le> k \<and> k < int (length ''ACGTACGTAC'')
               \<and> charAt ''ACGTACGTAC'' i = Some (''ACGTACGTAC'' ! nat k)"
    using contextualiseMutation_reads_in_bounds
      [of "''ACGTACGTAC''" "\<lparr>ref = CHR ''G'', position = Finite 3, alt = CHR ''C''\<rparr>"]
    unfolding reads .
  then have "charAt ''ACGTACGTAC'' (Finite 2) = Some (''ACGTACGTAC'' ! nat 2)"
    and "charAt ''ACGTACGTAC'' (Finite 1) = Some (''ACGTACGTAC'' ! nat 1)"
    and "charAt ''ACGTACGTAC'' (Finite 3) = Some (''ACGTACGTAC'' ! nat 3)"
    by auto
  then show ?thesis using reads by simp
qed

subsection \<open>Parsing a mutation\<close>

lemma base_not_digit: "a \<in> set BASES \<Longrightarrow> \<not> isDigit a"
  by (auto simp add: BASES_def isDigit_def)

lemma matchMutation_Some_iff:
  "matchMutation s = Some (r, ds, a) \<longleftrightarrow>
     s = [r] @ ds @ [a] \<and> r \<in> set BASES \<and> ds \<noteq> [] \<and> (\<forall>d \<in> set ds. isDigit d) \<and> a \<in> set BASES"
proof
  assume m: "matchMutation s = Some (r, ds, a)"
  then obtain rest where s: "s = r # rest"
    by (cases s) (auto simp add: matchMutation_def Let_def split: if_splits list.splits)
  from m s have r: "r \<in> set BASES" and ds: "ds = takeWhile isDigit rest" "ds \<noteq> []"
    and tl: "dropWhile isDigit rest = [a]" and a: "a \<in> set BASES"
    by (auto simp add: matchMutation_def Let_def split: if_splits list.splits)
  have "rest = ds @ [a]"
    using takeWhile_dropWhile_id [of isDigit rest] ds tl by simp
  moreover have "\<forall>d \<in> set ds. isDigit d"
    using ds by (auto dest: set_takeWhileD)
  ultimately show "s = [r] @ ds @ [a] \<and> r \<in> set BASES \<and> ds \<noteq> [] \<and> (\<forall>d \<in> set ds. isDigit d) \<and> a \<in> set BASES"
    using s r ds a by simp
next
  assume h: "s = [r] @ ds @ [a] \<and> r \<in> set BASES \<and> ds \<noteq> [] \<and> (\<forall>d \<in> set ds. isDigit d) \<and> a \<in> set BASES"
  then have "takeWhile isDigit (ds @ [a]) = ds" "dropWhile isDigit (ds @ [a]) = [a]"
    by (simp_all add: base_not_digit)
  with h show "matchMutation s = Some (r, ds, a)"
    by (simp add: matchMutation_def)
qed

lemma toNumber_exact: "n < 2 ^ 53 \<Longrightarrow> toNumber n = Finite n"
  by (simp add: toNumber_def)

text \<open>
  C7. \<^verbatim>\<open>parseMutation\<close> returns \<^verbatim>\<open>null\<close> exactly when the trimmed, uppercased token is not one
  base of A, C, G, T, then one or more decimal digits, then one base of A, C, G, T, with
  nothing before or after. On a match it returns the first base as \<open>ref\<close>, the second as
  \<open>alt\<close> (nothing requires them to differ) and as \<open>position\<close> the double nearest to the
  decimal value of the digit run, which is the decimal value itself below \<open>2 ^ 53\<close>.
\<close>

theorem parseMutation_pattern:
  "(parseMutation t = None \<longleftrightarrow>
      \<not> (\<exists>r ds a. toUpperCase (trim t) = [r] @ ds @ [a] \<and> r \<in> set BASES \<and> ds \<noteq> []
            \<and> (\<forall>d \<in> set ds. isDigit d) \<and> a \<in> set BASES))
   \<and> (\<forall>r ds a. toUpperCase (trim t) = [r] @ ds @ [a] \<and> r \<in> set BASES \<and> ds \<noteq> []
            \<and> (\<forall>d \<in> set ds. isDigit d) \<and> a \<in> set BASES \<longrightarrow>
          parseMutation t = Some \<lparr>ref = r, position = toNumber (decimalValue ds), alt = a\<rparr>
          \<and> (decimalValue ds < 2 ^ 53 \<longrightarrow>
               parseMutation t = Some \<lparr>ref = r, position = Finite (decimalValue ds), alt = a\<rparr>))"
proof (intro conjI allI impI)
  show "parseMutation t = None \<longleftrightarrow>
      \<not> (\<exists>r ds a. toUpperCase (trim t) = [r] @ ds @ [a] \<and> r \<in> set BASES \<and> ds \<noteq> []
            \<and> (\<forall>d \<in> set ds. isDigit d) \<and> a \<in> set BASES)"
  proof (cases "matchMutation (toUpperCase (trim t))")
    case None
    then have "\<not> (\<exists>r ds a. matchMutation (toUpperCase (trim t)) = Some (r, ds, a))" by simp
    then show ?thesis
      unfolding matchMutation_Some_iff using None by (simp add: parseMutation_def)
  next
    case (Some c)
    obtain r ds a where c: "c = (r, ds, a)" by (cases c)
    have "\<exists>r ds a. matchMutation (toUpperCase (trim t)) = Some (r, ds, a)"
      using Some c by blast
    then show ?thesis
      unfolding matchMutation_Some_iff using Some c by (simp add: parseMutation_def)
  qed
next
  fix r ds a
  assume "toUpperCase (trim t) = [r] @ ds @ [a] \<and> r \<in> set BASES \<and> ds \<noteq> []
            \<and> (\<forall>d \<in> set ds. isDigit d) \<and> a \<in> set BASES"
  then have m: "matchMutation (toUpperCase (trim t)) = Some (r, ds, a)"
    by (simp add: matchMutation_Some_iff)
  then show p: "parseMutation t = Some \<lparr>ref = r, position = toNumber (decimalValue ds), alt = a\<rparr>"
    by (simp add: parseMutation_def parseInt_def)
  assume "decimalValue ds < 2 ^ 53"
  then show "parseMutation t = Some \<lparr>ref = r, position = Finite (decimalValue ds), alt = a\<rparr>"
    using p by (simp add: toNumber_exact)
qed

text \<open>
  The position of a token with a long digit run is not the decimal value of the run:
  \<open>9007199254740993 = 2 ^ 53 + 1\<close> is not a double, and \<^verbatim>\<open>parseInt\<close> returns \<open>2 ^ 53\<close>.
\<close>

theorem parseMutation_rounds_counterexample:
  "parseMutation ''A9007199254740993T'' =
     Some \<lparr>ref = CHR ''A'', position = Finite 9007199254740992, alt = CHR ''T''\<rparr>
   \<and> decimalValue ''9007199254740993'' = 9007199254740993"
  by code_simp


theorem parseMutation_pattern_witness:
  "toUpperCase (trim '' g3g '') = [CHR ''G''] @ ''3'' @ [CHR ''G'']
   \<and> CHR ''G'' \<in> set BASES \<and> ''3'' \<noteq> [] \<and> isDigit (CHR ''3'')
   \<and> decimalValue ''3'' < 2 ^ 53
   \<and> parseMutation '' g3g '' = Some \<lparr>ref = CHR ''G'', position = Finite 3, alt = CHR ''G''\<rparr>
   \<and> parseMutation ''G3'' = None"
proof -
  have u: "toUpperCase (trim '' g3g '') = [CHR ''G''] @ ''3'' @ [CHR ''G'']"
    by code_simp
  have b: "CHR ''G'' \<in> set BASES" "\<forall>d \<in> set ''3''. isDigit d"
    by (simp_all add: BASES_def isDigit_def)
  have v: "decimalValue ''3'' = 3"
    by (simp add: decimalValue_def digitValue_def)
  have n: "toUpperCase (trim ''G3'') = ''G3''"
    by code_simp
  have "parseMutation '' g3g '' = Some \<lparr>ref = CHR ''G'', position = Finite 3, alt = CHR ''G''\<rparr>"
    using parseMutation_pattern [of "'' g3g ''"] u b v by (simp add: toNumber_exact)
  moreover have "parseMutation ''G3'' = None"
    using parseMutation_pattern [of "''G3''"] n by (simp add: BASES_def)
  ultimately show ?thesis
    using u b v by simp
qed

subsection \<open>Strings\<close>

lemma trim_Nil [simp]: "trim [] = []"
  by (simp add: trim_def)

lemma trim_Cons_white: "isWhiteSpace c \<Longrightarrow> trim (c # s) = trim s"
  by (simp add: trim_def)

lemma trim_snoc_white:
  assumes "isWhiteSpace c"
  shows "trim (s @ [c]) = trim s"
proof (cases "\<forall>x \<in> set s. isWhiteSpace x")
  case True
  then have "dropWhile isWhiteSpace (s @ [c]) = []" "dropWhile isWhiteSpace s = []"
    unfolding dropWhile_eq_Nil_conv using assms by auto
  then show ?thesis unfolding trim_def by (simp only:)
next
  case False
  then have "dropWhile isWhiteSpace (s @ [c]) = dropWhile isWhiteSpace s @ [c]"
    by (auto simp add: dropWhile_append)
  then show ?thesis using assms by (simp add: trim_def)
qed

lemma set_trim: "set (trim s) \<subseteq> set s"
proof -
  have "set (trim s) \<subseteq> set (dropWhile isWhiteSpace s)"
    unfolding trim_def using set_dropWhileD [of _ isWhiteSpace "rev (dropWhile isWhiteSpace s)"]
    by auto
  then show ?thesis
    using set_dropWhileD [of _ isWhiteSpace s] by blast
qed

lemma trim_fixed:
  assumes "s = [] \<or> (\<not> isWhiteSpace (hd s) \<and> \<not> isWhiteSpace (last s))"
  shows "trim s = s"
proof (cases s)
  case Nil
  then show ?thesis by simp
next
  case (Cons c cs)
  with assms have h: "\<not> isWhiteSpace c" and l: "\<not> isWhiteSpace (last s)" by auto
  have "dropWhile isWhiteSpace s = s" using h Cons by simp
  moreover have "s \<noteq> []" using Cons by simp
  then have "\<not> isWhiteSpace (hd (rev s))" using l by (metis hd_rev)
  then have "dropWhile isWhiteSpace (rev s) = rev s"
    unfolding dropWhile_eq_self_iff by blast
  ultimately show ?thesis by (simp add: trim_def)
qed

lemma trim_ends: "trim s = [] \<or> (\<not> isWhiteSpace (hd (trim s)) \<and> \<not> isWhiteSpace (last (trim s)))"
proof (cases "trim s = []")
  case True
  then show ?thesis by simp
next
  case False
  define d where "d = dropWhile isWhiteSpace s"
  define e where "e = dropWhile isWhiteSpace (rev d)"
  have t: "trim s = rev e" by (simp add: trim_def d_def e_def)
  with False have e: "e \<noteq> []" by simp
  then have he: "\<not> isWhiteSpace (hd e)"
    unfolding e_def using hd_dropWhile by blast
  have "rev d = takeWhile isWhiteSpace (rev d) @ e"
    by (simp add: e_def)
  then have "d = rev e @ rev (takeWhile isWhiteSpace (rev d))"
    by (metis rev_append rev_rev_ident)
  then have "hd d = hd (rev e)" using e by (metis hd_append2 rev_is_Nil_conv)
  moreover have "d \<noteq> []" using e e_def by auto
  then have "\<not> isWhiteSpace (hd d)" unfolding d_def using hd_dropWhile by blast
  ultimately have "\<not> isWhiteSpace (hd (rev e))" by simp
  moreover have "last (rev e) = hd e" using e by (simp add: last_rev)
  ultimately show ?thesis using t he by simp
qed

lemma trim_idem: "trim (trim s) = trim s"
  using trim_ends [of s] by (rule trim_fixed)

lemma splitOn_not_Nil [simp]: "splitOn sep s \<noteq> []"
  by (induction s) (auto split: list.splits)

lemma splitOn_snoc:
  "splitOn sep (s @ [c]) =
     (if c = sep then splitOn sep s @ [[]]
      else butlast (splitOn sep s) @ [last (splitOn sep s) @ [c]])"
  by (induction s) (auto split: list.splits simp add: butlast_append)

lemma splitOn_no_sep: "l \<in> set (splitOn sep s) \<Longrightarrow> sep \<notin> set l"
  by (induction s arbitrary: l) (auto split: if_splits list.splits)

lemma splitOn_single: "sep \<notin> set s \<Longrightarrow> splitOn sep s = [s]"
  by (induction s) auto


subsection \<open>Parsing the sequence\<close>

text \<open>
  The loop of \<^verbatim>\<open>parseFasta\<close> computes the specification's expression on the trimmed text;
  trimming the text first only removes white space at the ends of the first and last kept
  lines and blank lines, so it changes nothing.
\<close>

lemma parseFasta_loop:
  "foldl (\<lambda>sequence line.
            if \<not> startsWith (trim line) (CHR ''>'') then sequence @ toUpperCase (trim line)
            else sequence) acc lines =
   acc @ toUpperCase (concat (filter (\<lambda>l. \<not> startsWith l (CHR ''>'')) (map trim lines)))"
  by (induction lines arbitrary: acc) (simp_all add: toUpperCase_def)

lemma parseFasta_eq: "parseFasta text = parseFasta_spec (trim text)"
  unfolding parseFasta_def parseFasta_spec_def Let_def by (simp add: parseFasta_loop)

lemma parseFasta_spec_Cons_white:
  assumes "isWhiteSpace c"
  shows "parseFasta_spec (c # s) = parseFasta_spec s"
proof (cases "c = CHR 0x0A")
  case True
  then show ?thesis by (simp add: parseFasta_spec_def startsWith_def)
next
  case False
  obtain l ls where "splitOn (CHR 0x0A) s = l # ls"
    by (cases "splitOn (CHR 0x0A) s") simp_all
  then show ?thesis
    using False assms by (simp add: parseFasta_spec_def trim_Cons_white)
qed

lemma parseFasta_spec_snoc_white:
  assumes "isWhiteSpace c"
  shows "parseFasta_spec (s @ [c]) = parseFasta_spec s"
proof (cases "c = CHR 0x0A")
  case True
  then show ?thesis by (simp add: parseFasta_spec_def splitOn_snoc startsWith_def)
next
  case False
  have "splitOn (CHR 0x0A) s = butlast (splitOn (CHR 0x0A) s) @ [last (splitOn (CHR 0x0A) s)]"
    by simp
  then obtain ls l where ls: "splitOn (CHR 0x0A) s = ls @ [l]"
    by blast
  show ?thesis
    using False assms by (simp add: parseFasta_spec_def splitOn_snoc ls trim_snoc_white)
qed

lemma parseFasta_spec_dropWhile:
  "parseFasta_spec (dropWhile isWhiteSpace s) = parseFasta_spec s"
  by (induction s) (simp_all add: parseFasta_spec_Cons_white)

lemma parseFasta_spec_dropWhile_rev:
  "parseFasta_spec (rev (dropWhile isWhiteSpace (rev s))) = parseFasta_spec s"
  by (induction s rule: rev_induct) (simp_all add: parseFasta_spec_snoc_white)

lemma parseFasta_spec_trim: "parseFasta_spec (trim s) = parseFasta_spec s"
  unfolding trim_def by (simp only: parseFasta_spec_dropWhile_rev parseFasta_spec_dropWhile)

text \<open>
  C8. \<^verbatim>\<open>parseFasta\<close> returns the uppercased concatenation of the trimmed lines of the text
  that do not start with \<^verbatim>\<open>>\<close>; header lines are dropped wherever they stand and no other
  character is removed. A text whose lines are all blank or headers, and the empty text,
  give the empty sequence.
\<close>

theorem parseFasta_refines:
  "parseFasta text = parseFasta_spec text
   \<and> ((\<forall>l \<in> set (splitOn (CHR 0x0A) text). trim l = [] \<or> startsWith (trim l) (CHR ''>''))
        \<longrightarrow> parseFasta text = [])
   \<and> parseFasta [] = []"
proof (intro conjI impI)
  show e: "parseFasta text = parseFasta_spec text"
    by (simp only: parseFasta_eq parseFasta_spec_trim)
  show "parseFasta text = []"
    if "\<forall>l \<in> set (splitOn (CHR 0x0A) text). trim l = [] \<or> startsWith (trim l) (CHR ''>'')"
    unfolding e parseFasta_spec_def using that by (auto simp add: toUpperCase_def)
  show "parseFasta [] = []"
    by (simp add: parseFasta_eq parseFasta_spec_def toUpperCase_def startsWith_def)
qed

theorem parseFasta_refines_witness:
  "parseFasta (''>a'' @ [CHR 0x0A] @ ''  '' @ [CHR 0x0A] @ '' >b'') = []
   \<and> parseFasta (''>seq1'' @ [CHR 0x0A] @ ''acgt n'' @ [CHR 0x0A] @ ''>x'' @ [CHR 0x0A] @ '' Ac '')
       = ''ACGT NAC''"
proof -
  have h: "\<forall>l \<in> set (splitOn (CHR 0x0A) (''>a'' @ [CHR 0x0A] @ ''  '' @ [CHR 0x0A] @ '' >b'')).
       trim l = [] \<or> startsWith (trim l) (CHR ''>'')"
    by (simp add: trim_def isWhiteSpace_def startsWith_def)
  have v: "parseFasta_spec (''>seq1'' @ [CHR 0x0A] @ ''acgt n'' @ [CHR 0x0A] @ ''>x'' @ [CHR 0x0A] @ '' Ac '')
       = ''ACGT NAC''"
    by code_simp
  have a: "parseFasta (''>a'' @ [CHR 0x0A] @ ''  '' @ [CHR 0x0A] @ '' >b'') = []"
    using parseFasta_refines [of "''>a'' @ [CHR 0x0A] @ ''  '' @ [CHR 0x0A] @ '' >b''"] h
    by blast
  have b: "parseFasta (''>seq1'' @ [CHR 0x0A] @ ''acgt n'' @ [CHR 0x0A] @ ''>x'' @ [CHR 0x0A] @ '' Ac '')
       = ''ACGT NAC''"
    using parseFasta_refines
      [of "''>seq1'' @ [CHR 0x0A] @ ''acgt n'' @ [CHR 0x0A] @ ''>x'' @ [CHR 0x0A] @ '' Ac ''"] v
    by (elim conjE) (rule trans)
  show ?thesis
    using a b by (intro conjI)
qed

subsection \<open>The aggregate computation\<close>

lemma processMutation_fst:
  "fst (processMutation sq (acc, c) tok) = acc @ [outcomeOf sq tok]"
  by (simp add: processMutation_def outcomeOf_def split: option.splits sum.splits)

lemma outcomeOf_original: "original (outcomeOf sq tok) = tok"
  by (simp add: processMutation_def outcomeOf_def split: option.splits sum.splits)

lemma processMutation_dom:
  "dom (snd (processMutation sq (acc, c) tok)) = dom c"
  by (auto simp add: processMutation_def split: option.splits sum.splits)

lemma sumCounts_increment:
  assumes "finite (dom c)" and "k \<in> dom c"
  shows "sumCounts (c(k \<mapsto> Suc (the (c k)))) = Suc (sumCounts c)"
proof -
  have d: "dom (c(k \<mapsto> Suc (the (c k)))) = dom c"
    using assms(2) by auto
  have "sumCounts (c(k \<mapsto> Suc (the (c k)))) =
          Suc (the (c k)) + (\<Sum>j \<in> dom c - {k}. the ((c(k \<mapsto> Suc (the (c k)))) j))"
    unfolding sumCounts_def d using assms by (simp add: sum.remove [of _ k])
  also have "(\<Sum>j \<in> dom c - {k}. the ((c(k \<mapsto> Suc (the (c k)))) j)) = (\<Sum>j \<in> dom c - {k}. the (c j))"
    by (rule sum.cong) auto
  also have "Suc (the (c k)) + (\<Sum>j \<in> dom c - {k}. the (c j)) = Suc (sumCounts c)"
    unfolding sumCounts_def using assms by (simp add: sum.remove [of _ k])
  finally show ?thesis .
qed

lemma processMutation_sum:
  assumes "dom c = set ALL_CONTEXTS"
  shows "sumCounts (snd (processMutation sq (acc, c) tok)) =
           sumCounts c + (if countedToken sq tok then 1 else 0)"
proof -
  have "finite (dom c)" using assms by simp
  then show ?thesis
    using assms
    by (auto simp add: processMutation_def countedToken_def sumCounts_increment
          split: option.splits sum.splits)
qed

lemma loop_result:
  assumes "dom c = set ALL_CONTEXTS"
  shows "fst (foldl (processMutation sq) (acc, c) toks) = acc @ map (outcomeOf sq) toks
         \<and> dom (snd (foldl (processMutation sq) (acc, c) toks)) = set ALL_CONTEXTS
         \<and> sumCounts (snd (foldl (processMutation sq) (acc, c) toks)) =
             sumCounts c + length (filter (countedToken sq) toks)"
  using assms
proof (induction toks arbitrary: acc c)
  case Nil
  then show ?case by simp
next
  case (Cons tok toks)
  obtain acc' c' where step: "processMutation sq (acc, c) tok = (acc', c')"
    by (cases "processMutation sq (acc, c) tok")
  have a: "acc' = acc @ [outcomeOf sq tok]"
    using processMutation_fst [of sq acc c tok] step by simp
  have d: "dom c' = set ALL_CONTEXTS"
    using processMutation_dom [of sq acc c tok] step Cons.prems by simp
  have s: "sumCounts c' = sumCounts c + (if countedToken sq tok then 1 else 0)"
    using processMutation_sum [OF Cons.prems, of sq acc tok] step by simp
  show ?case
    using Cons.IH [OF d, of acc'] by (simp add: step a s)
qed

lemma initial_counts:
  "foldl (\<lambda>counts ctx. counts(ctx \<mapsto> 0)) c0 ks = (\<lambda>k. if k \<in> set ks then Some (0::nat) else c0 k)"
  by (induction ks arbitrary: c0) (auto simp add: fun_eq_iff)

lemma initial_counts_dom:
  "dom (foldl (\<lambda>counts ctx. counts(ctx \<mapsto> (0::nat))) Map.empty ks) = set ks"
  by (auto simp add: initial_counts dom_def)

lemma initial_counts_sum:
  "sumCounts (foldl (\<lambda>counts ctx. counts(ctx \<mapsto> 0)) Map.empty ks) = 0"
  by (auto simp add: sumCounts_def initial_counts intro!: sum.neutral split: if_splits)

lemma computeResults_empty:
  "parseFasta f = [] \<Longrightarrow>
   computeResults f t = \<lparr>contextualised = [], counts = Map.empty, sequence = None\<rparr>"
  by (simp add: computeResults_def)

lemma computeResults_nonempty:
  assumes "parseFasta f \<noteq> []"
  shows "contextualised (computeResults f t) = map (outcomeOf (parseFasta f)) (mutationStrings t)"
    and "dom (counts (computeResults f t)) = set ALL_CONTEXTS"
    and "sumCounts (counts (computeResults f t)) =
           length (filter (countedToken (parseFasta f)) (mutationStrings t))"
    and "sequence (computeResults f t) = Some (parseFasta f)"
  using assms
    loop_result [OF initial_counts_dom, of "parseFasta f" "[]" "mutationStrings t"]
  by (simp_all add: computeResults_def Let_def case_prod_beta initial_counts_sum)

lemma parseFasta_Nil: "parseFasta [] = []"
  by (simp add: parseFasta_eq parseFasta_spec_def toUpperCase_def startsWith_def)

lemma catalogue_no_N: "k \<in> set ALL_CONTEXTS \<Longrightarrow> CHR ''N'' \<notin> set k"
  by (auto simp add: ALL_CONTEXTS_def catalogue_set contextString_def BASES_def)

lemma canonical_iff:
  "contextString [b] [r] [a] [f] \<in> set ALL_CONTEXTS \<longleftrightarrow>
     b \<in> set BASES \<and> r \<in> set BASES \<and> a \<in> set BASES \<and> r \<noteq> a \<and> f \<in> set BASES"
  by (auto simp add: ALL_CONTEXTS_def catalogue_set contextString_def)

lemma parseMutation_bases:
  assumes "parseMutation tok = Some m"
  shows "ref m \<in> set BASES \<and> alt m \<in> set BASES"
proof -
  from assms obtain r ds a where
    "matchMutation (toUpperCase (trim tok)) = Some (r, ds, a)" and "ref m = r" and "alt m = a"
    by (auto simp add: parseMutation_def split: option.splits)
  then show ?thesis
    by (simp add: matchMutation_Some_iff)
qed

lemma contextualiseMutation_Inr:
  assumes "contextualiseMutation sq m = Inr r"
  shows "\<exists>b a. before r = Some b \<and> after r = Some a
           \<and> context r = contextString [b] [ref m] [alt m] [a]"
proof (cases "position m")
  case Infinity
  then show ?thesis using assms by (simp add: contextualiseMutation_Infinity)
next
  case (Finite p)
  show ?thesis
    using assms unfolding contextualiseMutation_Finite [OF Finite]
    by (auto simp add: Let_def contextString_def split: if_splits)
qed

lemma contextualiseMutation_empty: "contextualiseMutation [] m \<noteq> Inr r"
proof (cases "position m")
  case Infinity
  then show ?thesis by (simp add: contextualiseMutation_Infinity)
next
  case (Finite p)
  show ?thesis
    unfolding contextualiseMutation_Finite [OF Finite] by auto
qed

lemma countedToken_empty: "\<not> countedToken [] tok"
  by (simp add: countedToken_def contextualiseMutation_empty split: option.splits sum.splits)

lemma mutationStrings_single:
  assumes "tok \<in> set (mutationStrings t)"
  shows "mutationStrings tok = [tok]"
proof -
  from assms obtain piece where p: "piece \<in> set (splitOn (CHR '','') t)"
    and tok: "tok = trim piece" and ne: "tok \<noteq> []"
    by (auto simp add: mutationStrings_def)
  have "CHR '','' \<notin> set piece" using p by (rule splitOn_no_sep)
  then have "CHR '','' \<notin> set tok" using set_trim [of piece] tok by blast
  then have "splitOn (CHR '','') tok = [tok]" by (rule splitOn_single)
  moreover have "trim tok = tok" unfolding tok by (rule trim_idem)
  ultimately show ?thesis using ne by (simp add: mutationStrings_def)
qed

text \<open>The examples of the specification, evaluated.\<close>

lemma example_sequence: "parseFasta ''ACGTACGTAC'' = ''ACGTACGTAC''"
  by code_simp

lemma example_context: "''C[G>C]T'' \<in> set ALL_CONTEXTS"
  using canonical_iff [of "CHR ''C''" "CHR ''G''" "CHR ''C''" "CHR ''T''"]
  by (simp add: contextString_def BASES_def)

lemma example_parse:
  "parseMutation ''G3C'' = Some \<lparr>ref = CHR ''G'', position = Finite 3, alt = CHR ''C''\<rparr>"
  by code_simp

lemma example_contextualise:
  "contextualiseMutation ''ACGTACGTAC'' \<lparr>ref = CHR ''G'', position = Finite 3, alt = CHR ''C''\<rparr> =
     Inr \<lparr>ref = CHR ''G'', position = Finite 3, alt = CHR ''C'', context = ''C[G>C]T'',
          before = Some (CHR ''C''), after = Some (CHR ''T'')\<rparr>"
  by (simp add: contextualiseMutation_Finite [of _ 3] Let_def)

lemma example_parse_edge:
  "parseMutation ''A1T'' = Some \<lparr>ref = CHR ''A'', position = Finite 1, alt = CHR ''T''\<rparr>"
  by code_simp

lemma example_contextualise_edge:
  "contextualiseMutation ''ACGTACGTAC'' \<lparr>ref = CHR ''A'', position = Finite 1, alt = CHR ''T''\<rparr> =
     Inr \<lparr>ref = CHR ''A'', position = Finite 1, alt = CHR ''T'', context = ''N[A>T]C'',
          before = Some (CHR ''N''), after = Some (CHR ''C'')\<rparr>"
  by (simp add: contextualiseMutation_Finite [of _ 1] Let_def)

lemma example_tokens: "mutationStrings ''G3C, , A1T'' = [''G3C'', ''A1T'']"
  by code_simp

lemma example_counted:
  "filter (countedToken ''ACGTACGTAC'') [''G3C'', ''A1T''] = [''G3C'']"
proof -
  have "countedToken ''ACGTACGTAC'' ''G3C''"
    by (simp add: countedToken_def example_parse example_contextualise example_context)
  moreover have "\<not> countedToken ''ACGTACGTAC'' ''A1T''"
    using catalogue_no_N [of "''N[A>T]C''"]
    by (auto simp add: countedToken_def example_parse_edge example_contextualise_edge)
  ultimately show ?thesis by simp
qed

text \<open>
  C3, as the code has it. For inputs whose parsed sequence is not empty, the keys of the
  returned table are exactly the 192 contexts of the catalogue (each count is a natural
  number, so at least 0). For inputs whose parsed sequence is empty the returned table has no
  key at all. In both cases no key contains \<open>N\<close>.
\<close>

theorem counts_keys:
  "(parseFasta f \<noteq> [] \<longrightarrow> dom (counts (computeResults f t)) = set ALL_CONTEXTS)
   \<and> (parseFasta f = [] \<longrightarrow> dom (counts (computeResults f t)) = {})
   \<and> (\<forall>k \<in> dom (counts (computeResults f t)). CHR ''N'' \<notin> set k)"
proof (cases "parseFasta f = []")
  case True
  then show ?thesis by (simp add: computeResults_empty)
next
  case False
  then show ?thesis
    using computeResults_nonempty(2) [OF False, of t] by (simp add: catalogue_no_N)
qed

theorem counts_keys_witness:
  "parseFasta ''ACGTACGTAC'' \<noteq> [] \<and> parseFasta [] = []
   \<and> ''C[G>C]T'' \<in> dom (counts (computeResults ''ACGTACGTAC'' ''G3C''))
   \<and> CHR ''N'' \<notin> set ''C[G>C]T''
   \<and> dom (counts (computeResults [] ''G3C'')) = {}"
proof -
  have a: "parseFasta ''ACGTACGTAC'' \<noteq> []" by (simp add: example_sequence)
  have b: "parseFasta [] = []" by (rule parseFasta_Nil)
  have "dom (counts (computeResults ''ACGTACGTAC'' ''G3C'')) = set ALL_CONTEXTS"
    using counts_keys [of "''ACGTACGTAC''" "''G3C''"] a by blast
  then have c: "''C[G>C]T'' \<in> dom (counts (computeResults ''ACGTACGTAC'' ''G3C''))"
    using example_context by simp
  have d: "CHR ''N'' \<notin> set ''C[G>C]T''"
    using counts_keys [of "''ACGTACGTAC''" "''G3C''"] c by blast
  have e: "dom (counts (computeResults [] ''G3C'')) = {}"
    using counts_keys [of "[]" "''G3C''"] b by blast
  show ?thesis using a b c d e by (intro conjI)
qed

text \<open>
  For the empty sequence the table returned is \<^verbatim>\<open>{}\<close>: the catalogue context \<open>A[C>A]A\<close> is
  not one of its keys.
\<close>

theorem counts_keys_counterexample:
  "''A[C>A]A'' \<in> set ALL_CONTEXTS \<and> ''A[C>A]A'' \<notin> dom (counts (computeResults [] ''G3C''))"
proof -
  have "''A[C>A]A'' \<in> set ALL_CONTEXTS"
    using canonical_iff [of "CHR ''A''" "CHR ''C''" "CHR ''A''" "CHR ''A''"]
    by (simp add: contextString_def BASES_def)
  then show ?thesis
    by (simp add: computeResults_empty parseFasta_Nil)
qed

text \<open>
  C5. For every pair of inputs, the sum of all counts of the returned table is the number of
  tokens that parse, pass the bounds and reference checks, and whose context string is in
  the catalogue. The context of a validated token is in the catalogue exactly when \<open>ref\<close>
  and \<open>alt\<close> differ and both flanks are bases, so a token with an \<open>N\<close> flank, with another
  flank outside A, C, G, T, or with \<open>ref = alt\<close> adds nothing to any count.
\<close>

theorem counts_conservation:
  "(\<Sum>k \<in> dom (counts (computeResults f t)). the (counts (computeResults f t) k)) =
     length (filter (countedToken (parseFasta f)) (mutationStrings t))
   \<and> (\<forall>sq tok m r. parseMutation tok = Some m \<and> contextualiseMutation sq m = Inr r \<longrightarrow>
         (context r \<in> set ALL_CONTEXTS \<longleftrightarrow>
            ref m \<noteq> alt m \<and> before r \<in> Some ` set BASES \<and> after r \<in> Some ` set BASES))"
proof (intro conjI allI impI)
  show "(\<Sum>k \<in> dom (counts (computeResults f t)). the (counts (computeResults f t) k)) =
     length (filter (countedToken (parseFasta f)) (mutationStrings t))"
  proof (cases "parseFasta f = []")
    case True
    then show ?thesis by (simp add: computeResults_empty countedToken_empty)
  next
    case False
    then show ?thesis
      using computeResults_nonempty(3) [OF False, of t] by (simp add: sumCounts_def)
  qed
next
  fix sq tok m r
  assume h: "parseMutation tok = Some m \<and> contextualiseMutation sq m = Inr r"
  then obtain b a where r: "before r = Some b" "after r = Some a"
    "context r = contextString [b] [ref m] [alt m] [a]"
    using contextualiseMutation_Inr by blast
  show "context r \<in> set ALL_CONTEXTS \<longleftrightarrow>
          ref m \<noteq> alt m \<and> before r \<in> Some ` set BASES \<and> after r \<in> Some ` set BASES"
    using parseMutation_bases [of tok m] h by (auto simp add: r canonical_iff)
qed

theorem counts_conservation_witness:
  "parseMutation ''G3C'' = Some \<lparr>ref = CHR ''G'', position = Finite 3, alt = CHR ''C''\<rparr>
   \<and> contextualiseMutation ''ACGTACGTAC'' \<lparr>ref = CHR ''G'', position = Finite 3, alt = CHR ''C''\<rparr> =
       Inr \<lparr>ref = CHR ''G'', position = Finite 3, alt = CHR ''C'', context = ''C[G>C]T'',
            before = Some (CHR ''C''), after = Some (CHR ''T'')\<rparr>
   \<and> ''C[G>C]T'' \<in> set ALL_CONTEXTS
   \<and> (\<Sum>k \<in> dom (counts (computeResults ''ACGTACGTAC'' ''G3C, , A1T'')).
         the (counts (computeResults ''ACGTACGTAC'' ''G3C, , A1T'') k)) = 1"
proof -
  note th = counts_conservation [of "''ACGTACGTAC''" "''G3C, , A1T''"]
  have "context \<lparr>ref = CHR ''G'', position = Finite 3, alt = CHR ''C'', context = ''C[G>C]T'',
            before = Some (CHR ''C''), after = Some (CHR ''T'')\<rparr> \<in> set ALL_CONTEXTS"
    using th [THEN conjunct2, rule_format, OF conjI [OF example_parse example_contextualise]]
    by (simp add: BASES_def)
  then have c: "''C[G>C]T'' \<in> set ALL_CONTEXTS" by simp
  have s: "(\<Sum>k \<in> dom (counts (computeResults ''ACGTACGTAC'' ''G3C, , A1T'')).
         the (counts (computeResults ''ACGTACGTAC'' ''G3C, , A1T'') k)) = 1"
    using th [THEN conjunct1] by (simp only: example_sequence example_tokens example_counted) simp
  show ?thesis using example_parse example_contextualise c s by (intro conjI)
qed

text \<open>
  C6, as the code has it. For inputs whose parsed sequence is not empty, the outcomes list
  has one entry per token (the non-empty trimmed comma-separated pieces of the mutations
  text), in the order of the tokens, and the entry at each place carries the token at that
  place. For inputs whose parsed sequence is empty the outcomes list is empty.
\<close>

theorem outcomes_follow_tokens:
  "(parseFasta f \<noteq> [] \<longrightarrow>
      length (contextualised (computeResults f t)) = length (mutationStrings t)
      \<and> map original (contextualised (computeResults f t)) = mutationStrings t)
   \<and> (parseFasta f = [] \<longrightarrow> contextualised (computeResults f t) = [])"
proof (cases "parseFasta f = []")
  case True
  then show ?thesis by (simp add: computeResults_empty)
next
  case False
  have "map original (map (outcomeOf (parseFasta f)) (mutationStrings t)) = mutationStrings t"
    by (induction "mutationStrings t") (simp_all add: outcomeOf_original comp_def map_idI)
  then show ?thesis
    using False by (simp add: computeResults_nonempty(1) [OF False])
qed

theorem outcomes_follow_tokens_witness:
  "parseFasta ''ACGTACGTAC'' \<noteq> [] \<and> parseFasta [] = []
   \<and> map original (contextualised (computeResults ''ACGTACGTAC'' ''G3C, , A1T''))
       = [''G3C'', ''A1T'']
   \<and> contextualised (computeResults [] ''G3C, , A1T'') = []"
proof -
  have a: "parseFasta ''ACGTACGTAC'' \<noteq> []" by (simp add: example_sequence)
  have b: "parseFasta [] = []" by (rule parseFasta_Nil)
  have "map original (contextualised (computeResults ''ACGTACGTAC'' ''G3C, , A1T''))
       = mutationStrings ''G3C, , A1T''"
    using outcomes_follow_tokens [of "''ACGTACGTAC''" "''G3C, , A1T''"] a by blast
  then have c: "map original (contextualised (computeResults ''ACGTACGTAC'' ''G3C, , A1T''))
       = [''G3C'', ''A1T'']"
    by (simp only: example_tokens)
  have d: "contextualised (computeResults [] ''G3C, , A1T'') = []"
    using outcomes_follow_tokens [of "[]" "''G3C, , A1T''"] b by blast
  show ?thesis using a b c d by (intro conjI)
qed

text \<open>
  For the empty sequence and the mutations text \<open>G3C\<close> there is one token and no outcome.
\<close>

theorem outcomes_follow_tokens_counterexample:
  "mutationStrings ''G3C'' = [''G3C''] \<and> contextualised (computeResults [] ''G3C'') = []"
proof -
  have "mutationStrings ''G3C'' = [''G3C'']" by code_simp
  then show ?thesis by (simp add: computeResults_empty parseFasta_Nil)
qed

text \<open>
  C9. For a non-empty parsed sequence and the token at index \<open>i\<close> of a batch, the outcome at
  index \<open>i\<close> is the single outcome of the run on that token alone; and any other run over an
  input with the same parsed sequence that has the same token at some index \<open>j\<close> has the
  same outcome there, whatever its other tokens are.
\<close>

theorem outcome_noninterference:
  "parseFasta f \<noteq> [] \<and> i < length (mutationStrings t) \<longrightarrow>
     contextualised (computeResults f (mutationStrings t ! i)) = [contextualised (computeResults f t) ! i]
     \<and> (\<forall>f' t' j. parseFasta f' = parseFasta f \<and> j < length (mutationStrings t')
            \<and> mutationStrings t' ! j = mutationStrings t ! i \<longrightarrow>
          contextualised (computeResults f' t') ! j = contextualised (computeResults f t) ! i)"
proof (intro impI conjI allI)
  assume h: "parseFasta f \<noteq> [] \<and> i < length (mutationStrings t)"
  then have ne: "parseFasta f \<noteq> []" and i: "i < length (mutationStrings t)" by simp_all
  have "mutationStrings t ! i \<in> set (mutationStrings t)"
    using i by (rule nth_mem)
  then have single: "mutationStrings (mutationStrings t ! i) = [mutationStrings t ! i]"
    by (rule mutationStrings_single)
  have whole: "contextualised (computeResults f t) ! i = outcomeOf (parseFasta f) (mutationStrings t ! i)"
    unfolding computeResults_nonempty(1) [OF ne] using i by (rule nth_map)
  have one: "contextualised (computeResults f (mutationStrings t ! i)) =
               [outcomeOf (parseFasta f) (mutationStrings t ! i)]"
    by (simp add: computeResults_nonempty(1) [OF ne] single)
  show "contextualised (computeResults f (mutationStrings t ! i)) = [contextualised (computeResults f t) ! i]"
    by (simp only: one whole)
  fix f' t' j
  assume h': "parseFasta f' = parseFasta f \<and> j < length (mutationStrings t')
            \<and> mutationStrings t' ! j = mutationStrings t ! i"
  then have ne': "parseFasta f' \<noteq> []" and j: "j < length (mutationStrings t')"
    and same: "mutationStrings t' ! j = mutationStrings t ! i" and sq: "parseFasta f' = parseFasta f"
    using ne by simp_all
  have "contextualised (computeResults f' t') ! j = outcomeOf (parseFasta f') (mutationStrings t' ! j)"
    unfolding computeResults_nonempty(1) [OF ne'] using j by (rule nth_map)
  then show "contextualised (computeResults f' t') ! j = contextualised (computeResults f t) ! i"
    by (simp only: whole same sq)
qed

theorem outcome_noninterference_witness:
  "parseFasta ''ACGTACGTAC'' \<noteq> [] \<and> 1 < length (mutationStrings ''G3C, , A1T'')
   \<and> mutationStrings ''G3C, , A1T'' ! 1 = ''A1T''
   \<and> contextualised (computeResults ''ACGTACGTAC'' ''A1T'')
       = [contextualised (computeResults ''ACGTACGTAC'' ''G3C, , A1T'') ! 1]"
proof -
  have a: "parseFasta ''ACGTACGTAC'' \<noteq> []" by (simp add: example_sequence)
  have b: "1 < length (mutationStrings ''G3C, , A1T'')" by (simp add: example_tokens)
  have c: "mutationStrings ''G3C, , A1T'' ! 1 = ''A1T''" by (simp add: example_tokens)
  have "contextualised (computeResults ''ACGTACGTAC'' (mutationStrings ''G3C, , A1T'' ! 1))
       = [contextualised (computeResults ''ACGTACGTAC'' ''G3C, , A1T'') ! 1]"
    using outcome_noninterference [of "''ACGTACGTAC''" 1 "''G3C, , A1T''"] a b by blast
  then show ?thesis using a b c by (simp only:) simp
qed

subsection \<open>The table\<close>

lemma fold_push: "foldl (\<lambda>lines x. lines @ [g x]) acc xs = acc @ map g xs"
  by (induction xs arbitrary: acc) simp_all

lemma splitOn_append_sep:
  "sep \<notin> set l \<Longrightarrow> splitOn sep (l @ sep # r) = l # splitOn sep r"
  by (induction l) (auto split: list.splits)

lemma splitOn_joinWith:
  "ls \<noteq> [] \<Longrightarrow> \<forall>l \<in> set ls. sep \<notin> set l \<Longrightarrow> splitOn sep (joinWith [sep] ls) = ls"
proof (induction "[sep]" ls rule: joinWith.induct)
  case 1
  then show ?case by simp
next
  case (2 l)
  then show ?case by (simp add: splitOn_single)
next
  case (3 l m ls)
  then show ?case by (simp add: splitOn_append_sep)
qed

lemma countOr0_eq: "countOr0 res ctx = (case counts res ctx of None \<Rightarrow> 0 | Some n \<Rightarrow> n)"
  by (simp add: countOr0_def split: option.splits)

lemma tsvOutput_eq:
  "tsvOutput res =
     joinWith [CHR 0x0A]
       ((''Context'' @ [CHR 0x09] @ ''Count'')
        # map (\<lambda>ctx. ctx @ [CHR 0x09] @ numberToString (Finite (int (countOr0 res ctx))))
            ALL_CONTEXTS)"
  unfolding tsvOutput_def Let_def fold_push by simp

lemma catalogue_no_newline: "k \<in> set ALL_CONTEXTS \<Longrightarrow> CHR 0x0A \<notin> set k"
  by (auto simp add: ALL_CONTEXTS_def catalogue_set contextString_def BASES_def)

text \<open>Rows of the table for the examples.\<close>

lemma example_single_token: "mutationStrings ''G3C'' = [''G3C'']"
  by code_simp

lemma example_count:
  "counts (computeResults ''ACGTACGTAC'' ''G3C'') ''C[G>C]T'' = Some 1"
  using example_context
  by (simp add: computeResults_def Let_def example_sequence example_single_token
        processMutation_def example_parse example_contextualise initial_counts domIff)

lemma example_rows: "ALL_CONTEXTS ! 0 = ''A[A>C]A''" "ALL_CONTEXTS ! 79 = ''C[G>C]T''"
  by (simp_all add: ALL_CONTEXTS_def generateAllContexts_def BASES_def contextString_def)

text \<open>
  C4. The lines of the rendered table (the text split at the line breaks) are the header
  \<open>Context<TAB>Count\<close> followed by one line \<open>{context}<TAB>{count}\<close> per context of the
  catalogue, in the order of the catalogue: 193 lines in all. The catalogue has 192 distinct
  entries, so every context has exactly one line. A context that is not a key of
  \<^verbatim>\<open>counts\<close> is rendered with the count 0, which prints as \<open>0\<close>. A count below \<open>2 ^ 53\<close>
  prints as its decimal numeral: not empty, digits only, reading back as the count, without
  a leading zero. This holds for every value of \<^verbatim>\<open>results\<close>, hence for the one computed from
  any pair of inputs.
\<close>

theorem tsvOutput_rows:
  "splitOn (CHR 0x0A) (tsvOutput res) =
     (''Context'' @ [CHR 0x09] @ ''Count'')
     # map (\<lambda>ctx. ctx @ [CHR 0x09]
                  @ numberToString (Finite (int (case counts res ctx of None \<Rightarrow> 0 | Some n \<Rightarrow> n))))
         ALL_CONTEXTS
   \<and> length (splitOn (CHR 0x0A) (tsvOutput res)) = 193
   \<and> length ALL_CONTEXTS = 192 \<and> distinct ALL_CONTEXTS
   \<and> (\<forall>n. int n < 2 ^ 53 \<longrightarrow>
          numberToString (Finite (int n)) \<noteq> []
          \<and> (\<forall>c \<in> set (numberToString (Finite (int n))). isDigit c)
          \<and> decimalValue (numberToString (Finite (int n))) = int n
          \<and> (0 < n \<longrightarrow> hd (numberToString (Finite (int n))) \<noteq> CHR ''0''))
   \<and> numberToString (Finite (int 0)) = ''0''"
proof (intro conjI)
  have "\<forall>l \<in> set ((''Context'' @ [CHR 0x09] @ ''Count'')
        # map (\<lambda>ctx. ctx @ [CHR 0x09] @ numberToString (Finite (int (countOr0 res ctx))))
            ALL_CONTEXTS). CHR 0x0A \<notin> set l"
    by (auto simp add: catalogue_no_newline numberToString_no_newline)
  then have "splitOn (CHR 0x0A) (tsvOutput res) =
     (''Context'' @ [CHR 0x09] @ ''Count'')
     # map (\<lambda>ctx. ctx @ [CHR 0x09] @ numberToString (Finite (int (countOr0 res ctx))))
         ALL_CONTEXTS"
    unfolding tsvOutput_eq by (intro splitOn_joinWith) simp_all
  then show "splitOn (CHR 0x0A) (tsvOutput res) =
     (''Context'' @ [CHR 0x09] @ ''Count'')
     # map (\<lambda>ctx. ctx @ [CHR 0x09]
                  @ numberToString (Finite (int (case counts res ctx of None \<Rightarrow> 0 | Some n \<Rightarrow> n))))
         ALL_CONTEXTS"
    by (simp only: countOr0_eq)
  then show "length (splitOn (CHR 0x0A) (tsvOutput res)) = 193"
    by (simp add: ALL_CONTEXTS_def catalogue_length)
  show "length ALL_CONTEXTS = 192"
    by (simp add: ALL_CONTEXTS_def catalogue_length)
  show "distinct ALL_CONTEXTS"
    by (simp add: ALL_CONTEXTS_def catalogue_distinct)
  show "\<forall>n. int n < 2 ^ 53 \<longrightarrow>
          numberToString (Finite (int n)) \<noteq> []
          \<and> (\<forall>c \<in> set (numberToString (Finite (int n))). isDigit c)
          \<and> decimalValue (numberToString (Finite (int n))) = int n
          \<and> (0 < n \<longrightarrow> hd (numberToString (Finite (int n))) \<noteq> CHR ''0'')"
    using numberToString_decimal [of "int _"] by simp
  show "numberToString (Finite (int 0)) = ''0''"
    by (simp add: example_numbers)
qed

theorem tsvOutput_rows_witness:
  "splitOn (CHR 0x0A) (tsvOutput (computeResults ''ACGTACGTAC'' ''G3C'')) ! 0 = ''Context'' @ [CHR 0x09] @ ''Count''
   \<and> splitOn (CHR 0x0A) (tsvOutput (computeResults ''ACGTACGTAC'' ''G3C'')) ! 80 = ''C[G>C]T'' @ [CHR 0x09] @ ''1''
   \<and> splitOn (CHR 0x0A) (tsvOutput (computeResults ''ACGTACGTAC'' ''G3C'')) ! 1 = ''A[A>C]A'' @ [CHR 0x09] @ ''0''
   \<and> splitOn (CHR 0x0A) (tsvOutput (computeResults [] ''G3C'')) ! 80 = ''C[G>C]T'' @ [CHR 0x09] @ ''0''
   \<and> splitOn (CHR 0x0A)
        (tsvOutput \<lparr>contextualised = [], counts = [''C[G>C]T'' \<mapsto> 12], sequence = None\<rparr>) ! 80
       = ''C[G>C]T'' @ [CHR 0x09] @ ''12''
   \<and> decimalValue (numberToString (Finite (int 12))) = 12"
proof -
  have len: "79 < length ALL_CONTEXTS" "0 < length ALL_CONTEXTS"
    by (simp_all add: ALL_CONTEXTS_def catalogue_length)
  have k: "counts (computeResults ''ACGTACGTAC'' ''G3C'') ''A[A>C]A'' = Some 0"
  proof -
    have "''A[A>C]A'' \<in> set ALL_CONTEXTS"
      using canonical_iff [of "CHR ''A''" "CHR ''A''" "CHR ''C''" "CHR ''A''"]
      by (simp add: contextString_def BASES_def)
    then show ?thesis
      using example_context
      by (simp add: computeResults_def Let_def example_sequence example_single_token
            processMutation_def example_parse example_contextualise initial_counts domIff)
  qed
  have a: "splitOn (CHR 0x0A) (tsvOutput (computeResults ''ACGTACGTAC'' ''G3C'')) ! 0 = ''Context'' @ [CHR 0x09] @ ''Count''"
    using tsvOutput_rows [of "computeResults ''ACGTACGTAC'' ''G3C''"] by simp
  have b: "splitOn (CHR 0x0A) (tsvOutput (computeResults ''ACGTACGTAC'' ''G3C'')) ! 80 = ''C[G>C]T'' @ [CHR 0x09] @ ''1''"
    using tsvOutput_rows [of "computeResults ''ACGTACGTAC'' ''G3C''"] len
    by (simp add: example_rows example_count example_numbers)
  have c: "splitOn (CHR 0x0A) (tsvOutput (computeResults ''ACGTACGTAC'' ''G3C'')) ! 1 = ''A[A>C]A'' @ [CHR 0x09] @ ''0''"
    using tsvOutput_rows [of "computeResults ''ACGTACGTAC'' ''G3C''"] len
    by (simp add: example_rows k example_numbers)
  have d: "splitOn (CHR 0x0A) (tsvOutput (computeResults [] ''G3C'')) ! 80 = ''C[G>C]T'' @ [CHR 0x09] @ ''0''"
    using tsvOutput_rows [of "computeResults [] ''G3C''"] len
    by (simp add: example_rows computeResults_empty parseFasta_Nil example_numbers)
  have e: "splitOn (CHR 0x0A)
        (tsvOutput \<lparr>contextualised = [], counts = [''C[G>C]T'' \<mapsto> 12], sequence = None\<rparr>) ! 80
       = ''C[G>C]T'' @ [CHR 0x09] @ ''12''"
    using tsvOutput_rows [of "\<lparr>contextualised = [], counts = [''C[G>C]T'' \<mapsto> 12], sequence = None\<rparr>"] len
    by (simp add: example_rows example_numbers)
  have "\<forall>n. int n < 2 ^ 53 \<longrightarrow>
          numberToString (Finite (int n)) \<noteq> []
          \<and> (\<forall>c \<in> set (numberToString (Finite (int n))). isDigit c)
          \<and> decimalValue (numberToString (Finite (int n))) = int n
          \<and> (0 < n \<longrightarrow> hd (numberToString (Finite (int n))) \<noteq> CHR ''0'')"
    using tsvOutput_rows [of "computeResults [] ''G3C''"] by (elim conjE)
  from this [rule_format, of 12]
  have f: "decimalValue (numberToString (Finite (int 12))) = 12"
    by simp
  show ?thesis using a b c d e f by (intro conjI)
qed

end
